theory Spec2Isabelle
  imports Complex_Main "HOL-Library.Sublist" "HOL-Library.Multiset"
begin

section \<open>Strings of the page\<close>

text \<open>
  The labels, queries and messages of the front end are JavaScript strings. They are
  modelled as \<^typ>\<open>string\<close> over the ASCII range: \<open>trim\<close> strips the ASCII white space
  of \<open>String.prototype.trim\<close> (space, tab, line feed, vertical tab, form feed, carriage
  return) and \<open>toLowerCase\<close> maps \<open>A\<close>..\<open>Z\<close> to \<open>a\<close>..\<open>z\<close>. Characters outside ASCII are left
  as they are.
\<close>

definition isWhiteSpace :: "char \<Rightarrow> bool" where
  "isWhiteSpace c = (of_char c \<in> {32, 9, 10, 11, 12, 13 :: nat})"

definition trim :: "string \<Rightarrow> string" where
  "trim s = rev (dropWhile isWhiteSpace (rev (dropWhile isWhiteSpace s)))"

definition lowerChar :: "char \<Rightarrow> char" where
  "lowerChar c =
     (if 65 \<le> (of_char c :: nat) \<and> (of_char c :: nat) \<le> 90
      then char_of (of_char c + 32 :: nat) else c)"

definition toLowerCase :: "string \<Rightarrow> string" where
  "toLowerCase s = map lowerChar s"

text \<open>
  \<open>a.includes(b)\<close>: \<open>b\<close> occurs in \<open>a\<close> as a contiguous run of characters, searched from
  every start position in turn.
\<close>

fun includes_str :: "string \<Rightarrow> string \<Rightarrow> bool" where
  "includes_str [] s = (s = [])"
| "includes_str (c # cs) s = (prefix s (c # cs) \<or> includes_str cs s)"

text \<open>
  \<open>Array.prototype.findIndex\<close>: the index of the first element that satisfies the
  predicate, \<open>-1\<close> when none does.
\<close>

fun findIndex :: "('a \<Rightarrow> bool) \<Rightarrow> 'a list \<Rightarrow> int" where
  "findIndex P [] = - 1"
| "findIndex P (x # xs) =
     (if P x then 0
      else (let r = findIndex P xs in if r = - 1 then - 1 else r + 1))"

text \<open>\<open>Math.round\<close>: the nearest integer, a tie going up.\<close>

definition Math_round :: "real \<Rightarrow> int" where
  "Math_round x = \<lfloor>x + 1 / 2\<rfloor>"

section \<open>loading\_state.tsx: the stage catalog and the progress of a label\<close>

definition STAGE_ORDER :: "string list" where
  "STAGE_ORDER =
     [''checking memory'',
      ''planning'',
      ''searching'',
      ''analyzing'',
      ''writing'',
      ''critiquing'',
      ''revising'',
      ''re-critiquing'',
      ''saving'',
      ''finalizing'',
      ''finished'']"

text \<open>
  The quotient \<open>(index + 1) / STAGE_ORDER.length * 100\<close> is computed in the reals. The
  source computes it in doubles; the eleven values it can take lie at least \<open>0.04\<close> away
  from a tie, so the rounding of the double is the rounding of the exact value.
\<close>

definition stageToProgress :: "string \<Rightarrow> int" where
  "stageToProgress stage =
     (let normalized = toLowerCase (trim stage);
          index = findIndex (\<lambda>s. includes_str normalized s) STAGE_ORDER
      in if index = - 1 then 8
         else Math_round ((of_int (index + 1) / of_nat (length STAGE_ORDER)) * 100))"

text \<open>
  The component \<open>LoadingState\<close> keeps one state variable, \<open>displayProgress\<close>, initialised
  with the progress of the first render. Its effect depends on \<open>progress\<close>: it runs after
  the first render and after every render whose \<open>progress\<close> differs from that of the
  render before, and sets \<open>displayProgress\<close> to \<open>Math.max(prev, progress)\<close>. The record
  keeps the progress of the last render beside the state variable.
\<close>

record LoadingState =
  progress :: int
  displayProgress :: int

definition LoadingState_mount :: "string \<Rightarrow> LoadingState" where
  "LoadingState_mount stage =
     (let p = stageToProgress stage
      in \<lparr>progress = p, displayProgress = max p p\<rparr>)"

definition LoadingState_update :: "LoadingState \<Rightarrow> string \<Rightarrow> LoadingState" where
  "LoadingState_update ls stage =
     (let p = stageToProgress stage
      in if p \<noteq> progress ls
         then \<lparr>progress = p, displayProgress = max (displayProgress ls) p\<rparr>
         else ls)"

section \<open>types/research.ts\<close>

record Source =
  title :: string
  url :: string
  source_type :: string
  authors :: "string list option"

text \<open>Of the optional fields of \<open>ResearchResponse\<close> only the one the page sets is kept.\<close>

record ResearchResponse =
  resp_query :: string
  resp_answer :: "string option"
  resp_sources :: "Source list"
  resp_search_strategy :: "string option"

section \<open>results\_display.tsx: the source lists of the report\<close>



section \<open>search\_bar.tsx: when a submission goes through\<close>

text \<open>
  The button carries \<open>disabled={isLoading || !query.trim()}\<close>, the text area
  \<open>disabled={isLoading}\<close>, and the key handler calls \<open>onSubmit\<close> under its own test.
\<close>

definition button_disabled :: "string \<Rightarrow> bool \<Rightarrow> bool" where
  "button_disabled q loading = (loading \<or> trim q = [])"

definition textarea_disabled :: "bool \<Rightarrow> bool" where
  "textarea_disabled loading = loading"

definition handleKeyDown :: "string \<Rightarrow> bool \<Rightarrow> string \<Rightarrow> bool \<Rightarrow> bool" where
  "handleKeyDown key shiftKey q loading =
     (key = ''Enter'' \<and> \<not> shiftKey \<and> \<not> loading \<and> trim q \<noteq> [])"

section \<open>pdf\_export\_button.tsx\<close>

record PDFExportButton =
  isGenerating :: bool
  export_error :: "string option"

text \<open>
  What the request of \<open>handleDownload\<close> can come to: \<open>fetch\<close> rejects; the response is
  not \<open>ok\<close> and its body is JSON with or without a \<open>detail\<close>; the response is not \<open>ok\<close>
  and its body cannot be read; the response is \<open>ok\<close> and the download throws; the
  download goes through. A thrown error carries its message.
\<close>

datatype export_outcome =
    FetchRejected string
  | NotOk "string option" string
  | NotOkUnreadable string
  | DownloadThrew string
  | Downloaded

definition PDFExportButton_mount :: PDFExportButton where
  "PDFExportButton_mount = \<lparr>isGenerating = False, export_error = None\<rparr>"

definition handleDownload_begin :: "PDFExportButton \<Rightarrow> PDFExportButton" where
  "handleDownload_begin b = b\<lparr>isGenerating := True, export_error := None\<rparr>"

definition thrown_message :: "export_outcome \<Rightarrow> string option" where
  "thrown_message out =
     (case out of
        FetchRejected m \<Rightarrow> Some m
      | NotOk detail statusText \<Rightarrow>
          Some (case detail of
                  None \<Rightarrow> ''PDF generation failed: '' @ statusText
                | Some d \<Rightarrow> if d = [] then ''PDF generation failed: '' @ statusText else d)
      | NotOkUnreadable m \<Rightarrow> Some m
      | DownloadThrew m \<Rightarrow> Some m
      | Downloaded \<Rightarrow> None)"

definition handleDownload_settle :: "export_outcome \<Rightarrow> PDFExportButton \<Rightarrow> PDFExportButton" where
  "handleDownload_settle out b =
     (case thrown_message out of
        None \<Rightarrow> b\<lparr>isGenerating := False\<rparr>
      | Some m \<Rightarrow>
          b\<lparr>export_error := Some (if m = [] then ''Failed to generate PDF'' else m),
            isGenerating := False\<rparr>)"

section \<open>app/page.tsx: the state of the page and its sockets\<close>

record request =
  req_query :: string
  use_search :: bool
  mode :: string

text \<open>
  A socket is live while it is connecting or open. \<open>CLOSED\<close> stands for a socket on which
  \<open>close()\<close> was called or which the other side or the transport has closed; no event of
  such a socket reaches a handler that changes anything (\<open>onclose\<close> is empty). Each socket
  keeps the \<open>query\<close> that the closures of its handlers captured when \<open>handleSubmit\<close> ran,
  and the frames sent on it.
\<close>

datatype ready_state = CONNECTING | OPEN | CLOSED

record WebSocket =
  captured_query :: string
  readyState :: ready_state
  sent :: "request list"

text \<open>
  The value \<open>JSON.parse\<close> gives for a frame, read through the fields the handler looks
  at. A field that is absent is \<open>None\<close>; a field that is present has the type the
  protocol gives it. A \<open>type\<close> that is not a string compares unequal to the three
  literals, as an absent one does. A frame that \<open>JSON.parse\<close> rejects, or that decodes
  to \<open>null\<close>, makes the handler throw before it changes anything: it is \<open>None\<close> as a
  whole.
\<close>

record message =
  msg_type :: "string option"
  msg_stage :: "string option"
  msg_details :: "string option"
  msg_answer :: "string option"
  msg_sources :: "Source list option"
  msg_content :: "string option"

text \<open>
  The six state variables of \<open>Home\<close>. \<open>error\<close> and \<open>result\<close> are \<open>None\<close> for \<open>null\<close> (and
  for the \<open>undefined\<close> an error frame without \<open>content\<close> stores); \<open>status\<close> is \<open>None\<close>
  after a status frame without \<open>stage\<close>.
\<close>

record Home =
  query :: string
  isLoading :: bool
  error :: "string option"
  result :: "ResearchResponse option"
  status :: "string option"
  statusDetails :: string

text \<open>
  The page with what it owns: the sockets it has created, in order of creation, and
  the two stateful components it mounts, \<open>LoadingState\<close> (while \<open>isLoading\<close>) and the
  export button inside \<open>ResultsDisplay\<close> (while there is a result and no loading).
\<close>

record app =
  home :: Home
  sockets :: "WebSocket list"
  loading_view :: "LoadingState option"
  export_view :: "PDFExportButton option"

definition initial :: app where
  "initial =
     \<lparr>home = \<lparr>query = [], isLoading = False, error = None, result = None,
              status = Some ''Initializing...'', statusDetails = []\<rparr>,
      sockets = [], loading_view = None, export_view = None\<rparr>"

definition live :: "WebSocket \<Rightarrow> bool" where
  "live ws = (readyState ws = CONNECTING \<or> readyState ws = OPEN)"

definition set_readyState :: "nat \<Rightarrow> ready_state \<Rightarrow> app \<Rightarrow> app" where
  "set_readyState i st a =
     a\<lparr>sockets := (sockets a)[i := (sockets a ! i)\<lparr>readyState := st\<rparr>]\<rparr>"

definition ws_close :: "nat \<Rightarrow> app \<Rightarrow> app" where
  "ws_close i a = set_readyState i CLOSED a"

text \<open>\<open>ws.send\<close> puts a frame on an open socket.\<close>

definition ws_send :: "nat \<Rightarrow> request \<Rightarrow> app \<Rightarrow> app" where
  "ws_send i frame a =
     (if readyState (sockets a ! i) = OPEN
      then a\<lparr>sockets := (sockets a)[i := (sockets a ! i)\<lparr>sent := sent (sockets a ! i) @ [frame]\<rparr>]\<rparr>
      else a)"

text \<open>\<open>new WebSocket(wsUrl)\<close> returns a connecting socket or throws.\<close>

datatype construction = Constructed | Threw "string option"

definition handleSubmit :: "construction \<Rightarrow> app \<Rightarrow> app" where
  "handleSubmit c a =
     (let h = home a in
      if trim (query h) = []
      then a\<lparr>home := h\<lparr>error := Some ''Please enter a research question!''\<rparr>\<rparr>
      else
        (let h1 = h\<lparr>isLoading := True, error := None, result := None,
                    status := Some ''Starting...'',
                    statusDetails := ''Connecting to research agents...''\<rparr>
         in case c of
              Constructed \<Rightarrow>
                a\<lparr>home := h1,
                  sockets := sockets a @
                    [\<lparr>captured_query = query h, readyState = CONNECTING, sent = []\<rparr>]\<rparr>
            | Threw m \<Rightarrow>
                a\<lparr>home := h1\<lparr>error := Some (case m of Some t \<Rightarrow> t | None \<Rightarrow> ''Failed to connect''),
                              isLoading := False\<rparr>\<rparr>))"

definition ws_onopen :: "nat \<Rightarrow> app \<Rightarrow> app" where
  "ws_onopen i a =
     ws_send i \<lparr>req_query = trim (captured_query (sockets a ! i)),
                use_search = True, mode = ''ultra''\<rparr> a"

definition ws_onmessage :: "nat \<Rightarrow> message option \<Rightarrow> app \<Rightarrow> app" where
  "ws_onmessage i parsed a =
     (case parsed of
        None \<Rightarrow> a
      | Some data \<Rightarrow>
          if msg_type data = Some ''status'' then
            a\<lparr>home := (home a)\<lparr>status := msg_stage data,
                                statusDetails := (case msg_details data of None \<Rightarrow> [] | Some d \<Rightarrow> d)\<rparr>\<rparr>
          else if msg_type data = Some ''result'' then
            ws_close i
              (a\<lparr>home := (home a)
                   \<lparr>result := Some \<lparr>resp_query = trim (captured_query (sockets a ! i)),
                                     resp_answer = msg_answer data,
                                     resp_sources = (case msg_sources data of None \<Rightarrow> [] | Some xs \<Rightarrow> xs),
                                     resp_search_strategy = Some ''Real-time Agent Research''\<rparr>,
                     isLoading := False\<rparr>\<rparr>)
          else if msg_type data = Some ''error'' then
            ws_close i (a\<lparr>home := (home a)\<lparr>error := msg_content data, isLoading := False\<rparr>\<rparr>)
          else a)"

definition ws_onerror :: "nat \<Rightarrow> app \<Rightarrow> app" where
  "ws_onerror i a =
     a\<lparr>home := (home a)\<lparr>error := Some ''Connection failed. Make sure backend is running.'',
                         isLoading := False\<rparr>\<rparr>"

definition ws_onclose :: "nat \<Rightarrow> app \<Rightarrow> app" where
  "ws_onclose i a = a"

definition handleClear :: "app \<Rightarrow> app" where
  "handleClear a = a\<lparr>home := (home a)\<lparr>result := None, error := None, query := []\<rparr>\<rparr>"

section \<open>Events and renders\<close>

text \<open>
  After a handler has run, React renders \<open>Home\<close> once with the new state.
  \<open>LoadingState\<close> is in the tree exactly while \<open>isLoading\<close>: it is mounted when it
  enters the tree, updated while it stays, and loses its state when it leaves. Its
  render calls \<open>stageToProgress(status)\<close>, which throws on an \<open>undefined\<close> status
  (\<open>stage.trim()\<close>); the render then has no result and the model ends there (\<open>None\<close>).
  The export button is in the tree while \<open>!isLoading && result\<close>. The markup of
  \<open>ResultsDisplay\<close> itself is not part of the model.
\<close>

definition next_loading_view :: "LoadingState option \<Rightarrow> string \<Rightarrow> LoadingState" where
  "next_loading_view v stage =
     (case v of
        None \<Rightarrow> LoadingState_mount stage
      | Some ls \<Rightarrow> LoadingState_update ls stage)"

definition next_export_view ::
  "ResearchResponse option \<Rightarrow> PDFExportButton option \<Rightarrow> PDFExportButton option" where
  "next_export_view r v =
     (case r of
        None \<Rightarrow> None
      | Some res \<Rightarrow> (case v of None \<Rightarrow> Some PDFExportButton_mount | Some b \<Rightarrow> Some b))"

definition render :: "app \<Rightarrow> app option" where
  "render a =
     (if isLoading (home a) then
        (case status (home a) of
           None \<Rightarrow> None
         | Some stage \<Rightarrow>
             Some (a\<lparr>loading_view := Some (next_loading_view (loading_view a) stage),
                      export_view := None\<rparr>))
      else
        Some (a\<lparr>loading_view := None,
                 export_view := next_export_view (result (home a)) (export_view a)\<rparr>))"

text \<open>
  The events the page reacts to. The user changes the text, clicks \<open>Research\<close>, presses
  a key in the text area, clicks \<open>New Query\<close>, or clicks the export button; the
  browser reports that a socket has opened, delivers a frame, reports an error or a
  close, or settles the export request. A click or a key press that constructs a
  socket carries the outcome of the construction.
\<close>

datatype event =
    Change string
  | ClickResearch construction
  | KeyDown string bool construction
  | ClickNewQuery
  | ClickPDF
  | ExportSettled export_outcome
  | WsOpen nat
  | WsMessage nat "message option"
  | WsError nat
  | WsClose nat

text \<open>
  The browser's side of each event: a disabled or absent control gives no event; a
  socket opens once, from \<open>CONNECTING\<close>; a message event is dispatched only while the
  socket is \<open>OPEN\<close>, so none follows \<open>close()\<close>; an error or a close is reported for
  a live socket, whose state is \<open>CLOSED\<close> by the time the handler runs.
\<close>

fun fire :: "event \<Rightarrow> app \<Rightarrow> app" where
  "fire (Change v) a =
     (if textarea_disabled (isLoading (home a)) then a
      else a\<lparr>home := (home a)\<lparr>query := v\<rparr>\<rparr>)"
| "fire (ClickResearch c) a =
     (if button_disabled (query (home a)) (isLoading (home a)) then a
      else handleSubmit c a)"
| "fire (KeyDown key shiftKey c) a =
     (if \<not> textarea_disabled (isLoading (home a))
         \<and> handleKeyDown key shiftKey (query (home a)) (isLoading (home a))
      then handleSubmit c a else a)"
| "fire ClickNewQuery a =
     (if \<not> isLoading (home a) \<and> result (home a) \<noteq> None then handleClear a else a)"
| "fire ClickPDF a =
     (case export_view a of
        None \<Rightarrow> a
      | Some b \<Rightarrow> if isGenerating b then a
                  else a\<lparr>export_view := Some (handleDownload_begin b)\<rparr>)"
| "fire (ExportSettled out) a =
     (case export_view a of
        None \<Rightarrow> a
      | Some b \<Rightarrow> if isGenerating b
                  then a\<lparr>export_view := Some (handleDownload_settle out b)\<rparr>
                  else a)"
| "fire (WsOpen i) a =
     (if i < length (sockets a) \<and> readyState (sockets a ! i) = CONNECTING
      then ws_onopen i (set_readyState i OPEN a) else a)"
| "fire (WsMessage i parsed) a =
     (if i < length (sockets a) \<and> readyState (sockets a ! i) = OPEN
      then ws_onmessage i parsed a else a)"
| "fire (WsError i) a =
     (if i < length (sockets a) \<and> live (sockets a ! i)
      then ws_onerror i (set_readyState i CLOSED a) else a)"
| "fire (WsClose i) a =
     (if i < length (sockets a) \<and> live (sockets a ! i)
      then ws_onclose i (set_readyState i CLOSED a) else a)"

definition step :: "event \<Rightarrow> app \<Rightarrow> app option" where
  "step e a = render (fire e a)"

fun run :: "event list \<Rightarrow> app \<Rightarrow> app option" where
  "run [] a = Some a"
| "run (e # es) a = (case step e a of None \<Rightarrow> None | Some a' \<Rightarrow> run es a')"

inductive reachable :: "app \<Rightarrow> bool" where
  reachable_initial: "reachable initial"
| reachable_step: "reachable a \<Longrightarrow> step e a = Some a' \<Longrightarrow> reachable a'"


section \<open>Invariants of the reachable states\<close>

text \<open>The progress shown is never below the progress of the last render.\<close>

definition view_ok :: "app \<Rightarrow> bool" where
  "view_ok a =
     (case loading_view a of None \<Rightarrow> True | Some ls \<Rightarrow> progress ls \<le> displayProgress ls)"

text \<open>At most one socket is live, and none is while the page is not loading.\<close>

definition sockets_ok :: "app \<Rightarrow> bool" where
  "sockets_ok a =
     ((\<forall>i<length (sockets a). \<forall>j<length (sockets a).
         live (sockets a ! i) \<and> live (sockets a ! j) \<longrightarrow> i = j)
      \<and> (\<not> isLoading (home a) \<longrightarrow> (\<forall>i<length (sockets a). \<not> live (sockets a ! i))))"




section \<open>Properties of the model\<close>

subsection \<open>The stage catalog\<close>

lemma includes_str_sublist: "includes_str t s \<longleftrightarrow> sublist s t"
  by (induction t) (auto simp: sublist_Cons_right)

lemma findIndex_lower: "- 1 \<le> findIndex P xs"
  by (induction xs) (auto simp: Let_def)

lemma findIndex_none: "findIndex P xs = - 1 \<longleftrightarrow> (\<forall>x\<in>set xs. \<not> P x)"
proof (induction xs)
  case Nil show ?case by simp
next
  case (Cons x xs)
  with findIndex_lower[of P xs] show ?case by (auto simp: Let_def)
qed

lemma findIndex_first:
  "i < length xs \<Longrightarrow> P (xs ! i) \<Longrightarrow> (\<forall>j<i. \<not> P (xs ! j)) \<Longrightarrow> findIndex P xs = int i"
proof (induction xs arbitrary: i)
  case Nil then show ?case by simp
next
  case (Cons x xs)
  show ?case
  proof (cases i)
    case 0 with Cons.prems show ?thesis by simp
  next
    case (Suc k)
    from Cons.prems Suc have nx: "\<not> P x" by auto
    from Cons.prems Suc have "k < length xs" "P (xs ! k)" "\<forall>j<k. \<not> P (xs ! j)" by auto
    then have "findIndex P xs = int k" by (rule Cons.IH)
    with nx Suc show ?thesis by (simp add: Let_def)
  qed
qed

lemma Math_round_percent:
  "Math_round ((of_int (int i + 1) / of_nat 11) * 100) = (200 * (int i + 1) + 11) div 22"
proof -
  have "(of_int (int i + 1) / of_nat 11) * 100 + 1 / 2 = (of_int (200 * (int i + 1) + 11) / of_int 22 :: real)"
    by (simp add: field_simps)
  then show ?thesis
    unfolding Math_round_def by (simp only: floor_divide_of_int_eq)
qed

lemma length_STAGE_ORDER: "length STAGE_ORDER = 11"
  by (simp add: STAGE_ORDER_def)

lemma stageToProgress_match:
  assumes "i < length STAGE_ORDER"
    and "includes_str (toLowerCase (trim label)) (STAGE_ORDER ! i)"
    and "\<forall>j<i. \<not> includes_str (toLowerCase (trim label)) (STAGE_ORDER ! j)"
  shows "stageToProgress label = (200 * (int i + 1) + 11) div 22"
proof -
  have "findIndex (\<lambda>s. includes_str (toLowerCase (trim label)) s) STAGE_ORDER = int i"
    using assms by (intro findIndex_first) auto
  then show ?thesis
    by (simp add: stageToProgress_def Let_def length_STAGE_ORDER Math_round_percent[simplified])
qed

lemma stageToProgress_nomatch:
  assumes "\<forall>s\<in>set STAGE_ORDER. \<not> includes_str (toLowerCase (trim label)) s"
  shows "stageToProgress label = 8"
  using assms by (simp add: stageToProgress_def Let_def findIndex_none)


subsection \<open>Renders\<close>

lemma LoadingState_update_same:
  "progress ls = stageToProgress stage \<Longrightarrow> LoadingState_update ls stage = ls"
  by (simp add: LoadingState_update_def)

lemma progress_mount: "progress (LoadingState_mount stage) = stageToProgress stage"
  by (simp add: LoadingState_mount_def Let_def)

lemma progress_update: "progress (LoadingState_update ls stage) = stageToProgress stage"
  by (simp add: LoadingState_update_def Let_def)

lemma displayProgress_update:
  "progress ls \<le> displayProgress ls \<Longrightarrow>
   displayProgress (LoadingState_update ls stage) = max (displayProgress ls) (stageToProgress stage)"
  by (auto simp: LoadingState_update_def Let_def)

lemma progress_le_mount: "progress (LoadingState_mount stage) \<le> displayProgress (LoadingState_mount stage)"
  by (simp add: LoadingState_mount_def Let_def)

lemma progress_le_update:
  "progress ls \<le> displayProgress ls \<Longrightarrow>
   progress (LoadingState_update ls stage) \<le> displayProgress (LoadingState_update ls stage)"
  by (auto simp: LoadingState_update_def Let_def)

lemma render_loading:
  assumes "isLoading (home a)" "status (home a) = Some stage"
  shows "render a = Some (a\<lparr>loading_view := Some (next_loading_view (loading_view a) stage), export_view := None\<rparr>)"
  unfolding render_def by (simp only: assms if_True option.case)

lemma render_throws:
  assumes "isLoading (home a)" "status (home a) = None"
  shows "render a = None"
  unfolding render_def by (simp only: assms if_True option.case)

lemma render_idle:
  assumes "\<not> isLoading (home a)"
  shows "render a = Some (a\<lparr>loading_view := None, export_view := next_export_view (result (home a)) (export_view a)\<rparr>)"
  unfolding render_def by (simp only: assms if_False)

lemma progress_next: "progress (next_loading_view v stage) = stageToProgress stage"
  by (simp add: next_loading_view_def progress_mount progress_update split: option.splits)

lemma next_loading_view_same: "progress ls = stageToProgress stage \<Longrightarrow> next_loading_view (Some ls) stage = ls"
  by (simp add: next_loading_view_def LoadingState_update_same)

lemma next_export_view_idem: "next_export_view r (next_export_view r v) = next_export_view r v"
  by (simp add: next_export_view_def split: option.splits)

lemma render_idem:
  assumes "render a = Some a'"
  shows "render a' = Some a'"
proof (cases "isLoading (home a)")
  case True
  with assms obtain stage where st: "status (home a) = Some stage"
    by (cases "status (home a)") (simp_all add: render_throws)
  have a': "a' = a\<lparr>loading_view := Some (next_loading_view (loading_view a) stage), export_view := None\<rparr>"
    using assms render_loading[OF True st] by simp
  have "render a' = Some (a'\<lparr>loading_view := Some (next_loading_view (loading_view a') stage), export_view := None\<rparr>)"
    by (rule render_loading) (simp_all add: a' True st)
  also have "next_loading_view (loading_view a') stage = next_loading_view (loading_view a) stage"
    unfolding a' by (simp add: next_loading_view_same progress_next)
  finally show ?thesis by (simp add: a')
next
  case False
  have a': "a' = a\<lparr>loading_view := None, export_view := next_export_view (result (home a)) (export_view a)\<rparr>"
    using assms render_idle[OF False] by simp
  have "render a' = Some (a'\<lparr>loading_view := None, export_view := next_export_view (result (home a')) (export_view a')\<rparr>)"
    by (rule render_idle) (simp add: a' False)
  then show ?thesis by (simp add: a' next_export_view_idem)
qed


lemma render_home: "render a = Some a' \<Longrightarrow> home a' = home a"
  by (cases "isLoading (home a)"; cases "status (home a)")
     (auto simp: render_loading render_throws render_idle)

lemma render_sockets: "render a = Some a' \<Longrightarrow> sockets a' = sockets a"
  by (cases "isLoading (home a)"; cases "status (home a)")
     (auto simp: render_loading render_throws render_idle)

lemma reachable_render: "reachable a \<Longrightarrow> render a = Some a"
proof (induction rule: reachable.induct)
  case reachable_initial
  show ?case by (simp add: render_def initial_def next_export_view_def)
next
  case (reachable_step a e a')
  then show ?case by (simp add: step_def render_idem)
qed

lemma reachable_run: "reachable a \<Longrightarrow> run es a = Some a' \<Longrightarrow> reachable a'"
proof (induction es arbitrary: a)
  case Nil then show ?case by simp
next
  case (Cons e es)
  from Cons.prems(2) obtain b where b: "step e a = Some b" and r: "run es b = Some a'"
    by (auto split: option.splits)
  from Cons.prems(1) b have "reachable b" by (rule reachable_step)
  then show ?case using r by (rule Cons.IH)
qed

lemma loading_view_set_readyState [simp]: "loading_view (set_readyState i st a) = loading_view a"
  by (simp add: set_readyState_def)

lemma loading_view_ws_close [simp]: "loading_view (ws_close i a) = loading_view a"
  by (simp add: ws_close_def)

lemma loading_view_ws_send [simp]: "loading_view (ws_send i f a) = loading_view a"
  by (simp add: ws_send_def)

lemma loading_view_handleSubmit [simp]: "loading_view (handleSubmit c a) = loading_view a"
  by (simp add: handleSubmit_def Let_def split: construction.splits)

lemma loading_view_ws_onmessage [simp]: "loading_view (ws_onmessage i p a) = loading_view a"
  by (simp add: ws_onmessage_def split: option.splits)

lemma fire_loading_view [simp]: "loading_view (fire e a) = loading_view a"
  by (cases e) (simp_all add: handleClear_def ws_onopen_def ws_onerror_def ws_onclose_def
        split: option.splits)

lemma progress_le_next:
  "(case v of None \<Rightarrow> True | Some ls \<Rightarrow> progress ls \<le> displayProgress ls) \<Longrightarrow>
   progress (next_loading_view v stage) \<le> displayProgress (next_loading_view v stage)"
  by (simp add: next_loading_view_def progress_le_mount progress_le_update split: option.splits)

lemma render_view_ok:
  assumes "view_ok a" and "render a = Some a'"
  shows "view_ok a'"
proof (cases "isLoading (home a)")
  case True
  with assms obtain stage where st: "status (home a) = Some stage"
    by (cases "status (home a)") (simp_all add: render_throws)
  have "loading_view a' = Some (next_loading_view (loading_view a) stage)"
    using assms(2) render_loading[OF True st] by auto
  with assms(1) show ?thesis
    by (simp add: view_ok_def progress_le_next)
next
  case False
  have "loading_view a' = None"
    using assms(2) render_idle[OF False] by auto
  then show ?thesis by (simp add: view_ok_def)
qed

lemma reachable_view_ok: "reachable a \<Longrightarrow> view_ok a"
proof (induction rule: reachable.induct)
  case reachable_initial
  show ?case by (simp add: view_ok_def initial_def)
next
  case (reachable_step a e a')
  have "view_ok (fire e a)" using reachable_step.IH by (simp add: view_ok_def)
  moreover have "render (fire e a) = Some a'" using reachable_step.hyps by (simp add: step_def)
  ultimately show ?case by (rule render_view_ok)
qed


subsection \<open>Status frames\<close>

lemma reachable_loading:
  assumes "reachable a" and "loading_view a = Some ls"
  shows "isLoading (home a)"
proof (rule ccontr)
  assume n: "\<not> isLoading (home a)"
  from assms(1) have "render a = Some a" by (rule reachable_render)
  with render_idle[OF n] have "loading_view a = None"
    by (metis app.select_convs(3) app.surjective app.update_convs(3) app.update_convs(4) option.inject)
  with assms(2) show False by simp
qed

lemma ws_onmessage_status:
  assumes "msg_type m = Some ''status''"
  shows "ws_onmessage i (Some m) a =
         a\<lparr>home := (home a)\<lparr>status := msg_stage m,
               statusDetails := (case msg_details m of None \<Rightarrow> [] | Some d \<Rightarrow> d)\<rparr>\<rparr>"
  using assms by (simp add: ws_onmessage_def)

lemma step_status:
  assumes "isLoading (home a)" and "loading_view a = Some ls"
    and "i < length (sockets a)" and "readyState (sockets a ! i) = OPEN"
    and "msg_type m = Some ''status''" and "msg_stage m = Some label"
  shows "\<exists>a'. step (WsMessage i (Some m)) a = Some a'
           \<and> loading_view a' = Some (LoadingState_update ls label)
           \<and> sockets a' = sockets a"
proof -
  define b where "b = fire (WsMessage i (Some m)) a"
  have b: "b = a\<lparr>home := (home a)\<lparr>status := Some label,
               statusDetails := (case msg_details m of None \<Rightarrow> [] | Some d \<Rightarrow> d)\<rparr>\<rparr>"
    using assms by (simp add: b_def ws_onmessage_status)
  have l: "isLoading (home b)" and st: "status (home b) = Some label"
    using assms(1) by (simp_all add: b)
  have "render b = Some (b\<lparr>loading_view := Some (next_loading_view (loading_view b) label),
                               export_view := None\<rparr>)"
    using l st by (rule render_loading)
  moreover have "loading_view b = Some ls" using assms(2) by (simp add: b)
  moreover have "sockets b = sockets a" by (simp add: b)
  ultimately show ?thesis
    unfolding step_def b_def[symmetric] by (simp add: next_loading_view_def)
qed

lemma run_status:
  assumes "reachable a" and "loading_view a = Some ls"
    and "i < length (sockets a)" and "readyState (sockets a ! i) = OPEN"
    and "\<forall>m\<in>set ms. msg_type m = Some ''status''"
    and "map msg_stage ms = map Some labels"
  shows "\<exists>a' ls'. run (map (\<lambda>m. WsMessage i (Some m)) ms) a = Some a'
           \<and> loading_view a' = Some ls'
           \<and> displayProgress ls' = foldl (\<lambda>d l. max d (stageToProgress l)) (displayProgress ls) labels"
  using assms
proof (induction ms arbitrary: a ls labels)
  case Nil
  then show ?case by simp
next
  case (Cons m ms)
  from Cons.prems(6) obtain label rest where labels: "labels = label # rest"
    and lab: "msg_stage m = Some label" and rest: "map msg_stage ms = map Some rest"
    by (cases labels) auto
  from Cons.prems(5) have ty: "msg_type m = Some ''status''" by simp
  have load: "isLoading (home a)" using Cons.prems(1,2) by (rule reachable_loading)
  from step_status[OF load Cons.prems(2,3,4) ty lab]
  obtain b where b: "step (WsMessage i (Some m)) a = Some b"
    and lb: "loading_view b = Some (LoadingState_update ls label)"
    and sb: "sockets b = sockets a" by blast
  have rb: "reachable b" using Cons.prems(1) b by (rule reachable_step)
  have "view_ok a" using Cons.prems(1) by (rule reachable_view_ok)
  then have le: "progress ls \<le> displayProgress ls"
    using Cons.prems(2) by (simp add: view_ok_def)
  have "\<exists>a' ls'. run (map (\<lambda>m. WsMessage i (Some m)) ms) b = Some a'
           \<and> loading_view a' = Some ls'
           \<and> displayProgress ls' =
               foldl (\<lambda>d l. max d (stageToProgress l)) (displayProgress (LoadingState_update ls label)) rest"
    using rb lb Cons.prems(3,4,5) rest by (intro Cons.IH) (simp_all add: sb)
  then show ?case
    by (simp add: b labels displayProgress_update[OF le])
qed

lemma foldl_max_ge: "(d::int) \<le> foldl (\<lambda>d l. max d (f l)) d ls"
proof (induction ls arbitrary: d)
  case Nil show ?case by simp
next
  case (Cons l ls)
  have "d \<le> max d (f l)" by simp
  also have "\<dots> \<le> foldl (\<lambda>d l. max d (f l)) (max d (f l)) ls" by (rule Cons.IH)
  finally show ?case by simp
qed


lemma foldl_max_mono_take:
  "foldl (\<lambda>d l. max d (f l)) (d::int) (take k ls) \<le> foldl (\<lambda>d l. max d (f l)) d ls"
proof -
  have "foldl (\<lambda>d l. max d (f l)) d ls
        = foldl (\<lambda>d l. max d (f l)) (foldl (\<lambda>d l. max d (f l)) d (take k ls)) (drop k ls)"
    by (simp flip: foldl_append)
  then show ?thesis by (simp add: foldl_max_ge)
qed

subsection \<open>Sockets\<close>

lemma sockets_ok_home_only:
  assumes "sockets_ok a" and "sockets b = sockets a" and "isLoading (home b) = isLoading (home a)"
  shows "sockets_ok b"
  using assms by (simp add: sockets_ok_def)

lemma sockets_ok_close:
  assumes "sockets_ok a" and "i < length (sockets a)" and "live (sockets a ! i)"
    and "sockets b = (sockets a)[i := w]" and "\<not> live w"
  shows "sockets_ok b"
  unfolding sockets_ok_def
proof (intro conjI allI impI)
  fix j k assume "j < length (sockets b)" "k < length (sockets b)"
    and "live (sockets b ! j) \<and> live (sockets b ! k)"
  with assms show "j = k"
    by (auto simp: sockets_ok_def nth_list_update split: if_splits)
next
  fix j assume "\<not> isLoading (home b)" "j < length (sockets b)"
  show "\<not> live (sockets b ! j)"
  proof (cases "j = i")
    case True with assms show ?thesis by simp
  next
    case False
    with assms \<open>j < length (sockets b)\<close> have "sockets b ! j = sockets a ! j" "j < length (sockets a)" by simp_all
    moreover have "\<not> live (sockets a ! j)" using assms False calculation(2) by (auto simp: sockets_ok_def)
    ultimately show ?thesis by simp
  qed
qed

lemma sockets_ok_keep_live:
  assumes "sockets_ok a" and "i < length (sockets a)" and "live (sockets a ! i)"
    and "sockets b = (sockets a)[i := w]" and "isLoading (home b) = isLoading (home a)"
  shows "sockets_ok b"
  unfolding sockets_ok_def
proof (intro conjI allI impI)
  fix j k assume "j < length (sockets b)" "k < length (sockets b)"
    and "live (sockets b ! j) \<and> live (sockets b ! k)"
  with assms show "j = k"
    by (auto simp: sockets_ok_def nth_list_update split: if_splits)
next
  fix j assume "\<not> isLoading (home b)" "j < length (sockets b)"
  with assms show "\<not> live (sockets b ! j)"
    by (auto simp: sockets_ok_def)
qed

lemma sockets_ok_open_new:
  assumes "sockets_ok a" and "\<not> isLoading (home a)"
    and "sockets b = sockets a @ [w]" and "isLoading (home b)"
  shows "sockets_ok b"
  unfolding sockets_ok_def
proof (intro conjI allI impI)
  fix j k assume "j < length (sockets b)" "k < length (sockets b)"
    and "live (sockets b ! j) \<and> live (sockets b ! k)"
  with assms show "j = k"
    by (auto simp: sockets_ok_def nth_append split: if_splits)
next
  fix j assume "\<not> isLoading (home b)" 
  with assms show "\<not> live (sockets b ! j)" by simp
qed


lemma not_live_closed: "\<not> live (w\<lparr>readyState := CLOSED\<rparr>)"
  by (simp add: live_def)

lemma sockets_set_readyState:
  "sockets (set_readyState i st a) = (sockets a)[i := (sockets a ! i)\<lparr>readyState := st\<rparr>]"
  by (simp add: set_readyState_def)

lemma home_set_readyState: "home (set_readyState i st a) = home a"
  by (simp add: set_readyState_def)

lemma handleSubmit_empty:
  "trim (query (home a)) = [] \<Longrightarrow>
   handleSubmit c a = a\<lparr>home := (home a)\<lparr>error := Some ''Please enter a research question!''\<rparr>\<rparr>"
  by (simp add: handleSubmit_def)

lemma handleSubmit_Constructed:
  "trim (query (home a)) \<noteq> [] \<Longrightarrow>
   handleSubmit Constructed a =
     a\<lparr>home := (home a)\<lparr>isLoading := True, error := None, result := None,
                    status := Some ''Starting...'',
                    statusDetails := ''Connecting to research agents...''\<rparr>,
       sockets := sockets a @
         [\<lparr>captured_query = query (home a), readyState = CONNECTING, sent = []\<rparr>]\<rparr>"
  by (simp add: handleSubmit_def Let_def)

lemma handleSubmit_Threw:
  "trim (query (home a)) \<noteq> [] \<Longrightarrow>
   handleSubmit (Threw m) a =
     a\<lparr>home := (home a)\<lparr>isLoading := True, error := None, result := None,
                    status := Some ''Starting...'',
                    statusDetails := ''Connecting to research agents...'',
                    error := Some (case m of Some t \<Rightarrow> t | None \<Rightarrow> ''Failed to connect''),
                    isLoading := False\<rparr>\<rparr>"
  by (simp add: handleSubmit_def Let_def)

lemma handleSubmit_sockets_ok:
  assumes "sockets_ok a" and "\<not> isLoading (home a)"
  shows "sockets_ok (handleSubmit c a)"
proof (cases "trim (query (home a)) = []")
  case True
  show ?thesis
    by (rule sockets_ok_home_only[OF assms(1)]) (simp_all add: handleSubmit_empty[OF True])
next
  case False
  show ?thesis
  proof (cases c)
    case Constructed
    show ?thesis unfolding Constructed
      by (rule sockets_ok_open_new[OF assms]) (simp_all add: handleSubmit_Constructed[OF False])
  next
    case (Threw m)
    show ?thesis unfolding Threw
      by (rule sockets_ok_home_only[OF assms(1)]) (simp_all add: handleSubmit_Threw[OF False] assms(2))
  qed
qed

lemma ws_onmessage_result:
  assumes "msg_type m = Some ''result''"
  shows "ws_onmessage i (Some m) a =
         ws_close i
           (a\<lparr>home := (home a)
                \<lparr>result := Some \<lparr>resp_query = trim (captured_query (sockets a ! i)),
                                  resp_answer = msg_answer m,
                                  resp_sources = (case msg_sources m of None \<Rightarrow> [] | Some xs \<Rightarrow> xs),
                                  resp_search_strategy = Some ''Real-time Agent Research''\<rparr>,
                  isLoading := False\<rparr>\<rparr>)"
  using assms by (simp add: ws_onmessage_def)

lemma ws_onmessage_error:
  assumes "msg_type m = Some ''error''"
  shows "ws_onmessage i (Some m) a =
         ws_close i (a\<lparr>home := (home a)\<lparr>error := msg_content m, isLoading := False\<rparr>\<rparr>)"
  using assms by (simp add: ws_onmessage_def)

lemma ws_onmessage_ignored:
  assumes "msg_type m \<noteq> Some ''status''" and "msg_type m \<noteq> Some ''result''"
    and "msg_type m \<noteq> Some ''error''"
  shows "ws_onmessage i (Some m) a = a"
  using assms by (simp add: ws_onmessage_def)

lemma ws_onmessage_throws: "ws_onmessage i None a = a"
  by (simp add: ws_onmessage_def)

lemma ws_onmessage_sockets_ok:
  assumes "sockets_ok a" and "i < length (sockets a)" and "readyState (sockets a ! i) = OPEN"
  shows "sockets_ok (ws_onmessage i parsed a)"
proof (cases parsed)
  case None
  with assms(1) show ?thesis by (simp add: ws_onmessage_throws)
next
  case (Some m)
  have lv: "live (sockets a ! i)" using assms(3) by (simp add: live_def)
  consider (s) "msg_type m = Some ''status''" | (r) "msg_type m = Some ''result''"
    | (e) "msg_type m = Some ''error''"
    | (o) "msg_type m \<noteq> Some ''status''" "msg_type m \<noteq> Some ''result''" "msg_type m \<noteq> Some ''error''"
    by blast
  then show ?thesis
  proof cases
    case s
    show ?thesis unfolding Some
      by (rule sockets_ok_home_only[OF assms(1)]) (simp_all add: ws_onmessage_status[OF s])
  next
    case r
    show ?thesis unfolding Some
      by (rule sockets_ok_close[OF assms(1,2) lv, where w = "(sockets a ! i)\<lparr>readyState := CLOSED\<rparr>"])
         (simp_all add: ws_onmessage_result[OF r] ws_close_def sockets_set_readyState not_live_closed)
  next
    case e
    show ?thesis unfolding Some
      by (rule sockets_ok_close[OF assms(1,2) lv, where w = "(sockets a ! i)\<lparr>readyState := CLOSED\<rparr>"])
         (simp_all add: ws_onmessage_error[OF e] ws_close_def sockets_set_readyState not_live_closed)
  next
    case o
    with assms(1) show ?thesis unfolding Some by (simp add: ws_onmessage_ignored)
  qed
qed

lemma fire_sockets_ok:
  assumes "sockets_ok a"
  shows "sockets_ok (fire e a)"
proof (cases e)
  case (Change v)
  show ?thesis unfolding Change
    by (rule sockets_ok_home_only[OF assms]) simp_all
next
  case (ClickResearch c)
  with assms show ?thesis
    by (simp add: button_disabled_def handleSubmit_sockets_ok)
next
  case (KeyDown key shiftKey c)
  with assms show ?thesis
    by (simp add: handleKeyDown_def handleSubmit_sockets_ok)
next
  case ClickNewQuery
  show ?thesis unfolding ClickNewQuery
    by (rule sockets_ok_home_only[OF assms]) (simp_all add: handleClear_def)
next
  case ClickPDF
  show ?thesis unfolding ClickPDF
    by (rule sockets_ok_home_only[OF assms]) (simp_all split: option.splits)
next
  case (ExportSettled out)
  show ?thesis unfolding ExportSettled
    by (rule sockets_ok_home_only[OF assms]) (simp_all split: option.splits)
next
  case (WsOpen i)
  show ?thesis
  proof (cases "i < length (sockets a) \<and> readyState (sockets a ! i) = CONNECTING")
    case True
    then have lv: "live (sockets a ! i)" and i: "i < length (sockets a)" by (simp_all add: live_def)
    obtain w where "sockets (fire e a) = (sockets a)[i := w]" and "home (fire e a) = home a"
      using True by (simp add: WsOpen ws_onopen_def ws_send_def sockets_set_readyState home_set_readyState)
    then show ?thesis
      by (intro sockets_ok_keep_live[OF assms i lv]) simp_all
  next
    case False
    with assms show ?thesis by (auto simp: WsOpen)
  qed
next
  case (WsMessage i parsed)
  with assms show ?thesis by (simp add: ws_onmessage_sockets_ok)
next
  case (WsError i)
  show ?thesis
  proof (cases "i < length (sockets a) \<and> live (sockets a ! i)")
    case True
    then have i: "i < length (sockets a)" and lv: "live (sockets a ! i)" by simp_all
    show ?thesis
      by (rule sockets_ok_close[OF assms i lv, where w = "(sockets a ! i)\<lparr>readyState := CLOSED\<rparr>"])
         (simp_all add: i lv WsError ws_onerror_def sockets_set_readyState not_live_closed)
  next
    case False
    with assms show ?thesis by (auto simp: WsError)
  qed
next
  case (WsClose i)
  show ?thesis
  proof (cases "i < length (sockets a) \<and> live (sockets a ! i)")
    case True
    then have i: "i < length (sockets a)" and lv: "live (sockets a ! i)" by simp_all
    show ?thesis
      by (rule sockets_ok_close[OF assms i lv, where w = "(sockets a ! i)\<lparr>readyState := CLOSED\<rparr>"])
         (simp_all add: i lv WsClose ws_onclose_def sockets_set_readyState not_live_closed)
  next
    case False
    with assms show ?thesis by (auto simp: WsClose)
  qed
qed













subsection \<open>What holds in every reachable state\<close>

lemma render_sockets_ok:
  assumes "sockets_ok a" and "render a = Some a'"
  shows "sockets_ok a'"
  using assms(1) by (rule sockets_ok_home_only) (simp_all add: render_home[OF assms(2)] render_sockets[OF assms(2)])

lemma reachable_sockets_ok: "reachable a \<Longrightarrow> sockets_ok a"
proof (induction rule: reachable.induct)
  case reachable_initial
  show ?case by (simp add: sockets_ok_def initial_def)
next
  case (reachable_step a e a')
  have "sockets_ok (fire e a)" using reachable_step.IH by (rule fire_sockets_ok)
  moreover have "render (fire e a) = Some a'" using reachable_step.hyps by (simp add: step_def)
  ultimately show ?case by (rule render_sockets_ok)
qed


lemma filter_unique_le_1:
  "(\<forall>i<length xs. \<forall>j<length xs. P (xs ! i) \<and> P (xs ! j) \<longrightarrow> i = j) \<Longrightarrow>
   length (filter P xs) \<le> 1"
proof (induction xs)
  case Nil show ?case by simp
next
  case (Cons x xs)
  have tail: "\<forall>i<length xs. \<forall>j<length xs. P (xs ! i) \<and> P (xs ! j) \<longrightarrow> i = j"
  proof (intro allI impI)
    fix i j assume "i < length xs" "j < length xs" "P (xs ! i) \<and> P (xs ! j)"
    with Cons.prems have "Suc i = Suc j"
      by (metis length_Cons not_less_eq nth_Cons_Suc)
    then show "i = j" by simp
  qed
  show ?case
  proof (cases "P x")
    case False
    with Cons.IH[OF tail] show ?thesis by simp
  next
    case True
    have "\<not> P (xs ! k)" if "k < length xs" for k
    proof
      assume "P (xs ! k)"
      with Cons.prems True that have "0 = Suc k"
        by (metis length_Cons not_less_eq nth_Cons_0 nth_Cons_Suc zero_less_Suc)
      then show False by simp
    qed
    then have "filter P xs = []"
      by (auto simp: filter_empty_conv in_set_conv_nth)
    with True show ?thesis by simp
  qed
qed

lemma sockets_ok_live_loading:
  assumes "sockets_ok a" and "ws \<in> set (sockets a)" and "live ws"
  shows "isLoading (home a)"
  using assms by (auto simp: sockets_ok_def in_set_conv_nth)

lemma fire_submit_disabled:
  assumes "isLoading (home a)"
  shows "fire (ClickResearch c) a = a" and "fire (KeyDown key shiftKey c) a = a"
    and "fire (Change v) a = a" and "fire ClickNewQuery a = a"
  using assms by (simp_all add: button_disabled_def textarea_disabled_def handleKeyDown_def)

lemma reachable_loading_no_export:
  assumes "reachable a" and "isLoading (home a)"
  shows "export_view a = None"
proof -
  from assms(1) have r: "render a = Some a" by (rule reachable_render)
  show ?thesis
  proof (cases "status (home a)")
    case None
    with assms(2) r show ?thesis by (simp add: render_throws)
  next
    case (Some stage)
    from render_loading[OF assms(2) Some] r
    have "a = a\<lparr>loading_view := Some (next_loading_view (loading_view a) stage), export_view := None\<rparr>"
      by simp
    then have "export_view a = export_view (a\<lparr>loading_view := Some (next_loading_view (loading_view a) stage), export_view := None\<rparr>)"
      by simp
    then show ?thesis by simp
  qed
qed

lemma prefix_sockets_handleSubmit: "prefix (sockets a) (sockets (handleSubmit c a))"
proof (cases "trim (query (home a)) = []")
  case True
  then show ?thesis by (simp add: handleSubmit_empty)
next
  case False
  then show ?thesis
    by (cases c) (simp_all add: handleSubmit_Constructed handleSubmit_Threw)
qed


lemma reachable_step_same:
  assumes "reachable a" and "fire e a = a"
  shows "step e a = Some a"
  using reachable_render[OF assms(1)] assms(2) by (simp add: step_def)






subsection \<open>Sessions run from the initial state\<close>

lemma opened_run:
  "run [Change ''q'', ClickResearch Constructed, WsOpen 0] initial = Some
     \<lparr>home = \<lparr>query = ''q'', isLoading = True, error = None, result = None,
              status = Some ''Starting...'', statusDetails = ''Connecting to research agents...''\<rparr>,
      sockets = [\<lparr>captured_query = ''q'', readyState = OPEN,
                  sent = [\<lparr>req_query = ''q'', use_search = True, mode = ''ultra''\<rparr>]\<rparr>],
      loading_view = Some \<lparr>progress = 8, displayProgress = 8\<rparr>, export_view = None\<rparr>"
  by code_simp

lemma stageToProgress_examples:
  "stageToProgress ''Searching arXiv'' = 27"
  "stageToProgress ''  PLANNING  '' = 18"
  "stageToProgress ''warming up'' = 8"
  by code_simp+


lemma nth_STAGE_ORDER:
  "STAGE_ORDER ! 0 = ''checking memory''" "STAGE_ORDER ! 1 = ''planning''"
  "STAGE_ORDER ! 2 = ''searching''"
  by (simp_all add: STAGE_ORDER_def)

section \<open>The claims\<close>

text \<open>
  C1. During one session, that is while \<open>LoadingState\<close> stays mounted and the socket of
  the session is open, every sequence of status frames that carry a stage label is
  processed to the end, and the progress displayed after it is the running maximum of
  the progress displayed before it and the computed progress of each label in turn:
  after each status frame it is \<open>max\<close> of the previous value and the computed progress
  of the new label. So the displayed values never decrease, whatever stage a later
  frame reports, recognised or not: the value after any prefix of the sequence is at
  most the value after the whole.
\<close>

theorem displayProgress_never_regresses:
  assumes "reachable a" and "loading_view a = Some ls"
    and "i < length (sockets a)" and "readyState (sockets a ! i) = OPEN"
    and "\<forall>m\<in>set ms. msg_type m = Some ''status''"
    and "map msg_stage ms = map Some labels"
  shows "\<exists>a' ls'. run (map (\<lambda>m. WsMessage i (Some m)) ms) a = Some a'
           \<and> loading_view a' = Some ls'
           \<and> displayProgress ls' = foldl (\<lambda>d l. max d (stageToProgress l)) (displayProgress ls) labels
           \<and> displayProgress ls \<le> displayProgress ls'
           \<and> (\<forall>k\<le>length ms. \<exists>b lb.
                 run (map (\<lambda>m. WsMessage i (Some m)) (take k ms)) a = Some b
                 \<and> loading_view b = Some lb
                 \<and> displayProgress lb \<le> displayProgress ls')"
proof -
  from run_status[OF assms] obtain a' ls' where
    r: "run (map (\<lambda>m. WsMessage i (Some m)) ms) a = Some a'" and l: "loading_view a' = Some ls'"
    and d: "displayProgress ls' = foldl (\<lambda>d l. max d (stageToProgress l)) (displayProgress ls) labels"
    by blast
  have ge: "displayProgress ls \<le> displayProgress ls'"
    unfolding d by (rule foldl_max_ge)
  have pre: "\<exists>b lb. run (map (\<lambda>m. WsMessage i (Some m)) (take k ms)) a = Some b
                 \<and> loading_view b = Some lb \<and> displayProgress lb \<le> displayProgress ls'"
    if "k \<le> length ms" for k
  proof -
    have ty: "\<forall>m\<in>set (take k ms). msg_type m = Some ''status''"
      using assms(5) by (meson in_set_takeD)
    have st: "map msg_stage (take k ms) = map Some (take k labels)"
      using assms(6) by (simp flip: take_map)
    from run_status[OF assms(1-4) ty st] obtain b lb where
      "run (map (\<lambda>m. WsMessage i (Some m)) (take k ms)) a = Some b" "loading_view b = Some lb"
      and "displayProgress lb
           = foldl (\<lambda>d l. max d (stageToProgress l)) (displayProgress ls) (take k labels)"
      by blast
    moreover have "foldl (\<lambda>d l. max d (stageToProgress l)) (displayProgress ls) (take k labels)
                   \<le> displayProgress ls'"
      unfolding d by (rule foldl_max_mono_take)
    ultimately show ?thesis by auto
  qed
  from r l d ge pre show ?thesis by blast
qed

theorem displayProgress_never_regresses_witness:
  "\<exists>a ls a' ls'.
     run [Change ''q'', ClickResearch Constructed, WsOpen 0] initial = Some a
     \<and> loading_view a = Some ls \<and> displayProgress ls = 8
     \<and> run (map (\<lambda>m. WsMessage 0 (Some m))
            [\<lparr>msg_type = Some ''status'', msg_stage = Some ''Searching arXiv'', msg_details = None,
              msg_answer = None, msg_sources = None, msg_content = None\<rparr>,
             \<lparr>msg_type = Some ''status'', msg_stage = Some ''  PLANNING  '', msg_details = Some ''again'',
              msg_answer = None, msg_sources = None, msg_content = None\<rparr>,
             \<lparr>msg_type = Some ''status'', msg_stage = Some ''warming up'', msg_details = None,
              msg_answer = None, msg_sources = None, msg_content = None\<rparr>]) a = Some a'
     \<and> loading_view a' = Some ls' \<and> displayProgress ls' = 27
     \<and> displayProgress ls \<le> displayProgress ls'"
proof -
  let ?a = "\<lparr>home = \<lparr>query = ''q'', isLoading = True, error = None, result = None,
              status = Some ''Starting...'', statusDetails = ''Connecting to research agents...''\<rparr>,
      sockets = [\<lparr>captured_query = ''q'', readyState = OPEN,
                  sent = [\<lparr>req_query = ''q'', use_search = True, mode = ''ultra''\<rparr>]\<rparr>],
      loading_view = Some \<lparr>progress = 8, displayProgress = 8\<rparr>, export_view = None\<rparr>"
  let ?ms = "[\<lparr>msg_type = Some ''status'', msg_stage = Some ''Searching arXiv'', msg_details = None,
              msg_answer = None, msg_sources = None, msg_content = None\<rparr>,
             \<lparr>msg_type = Some ''status'', msg_stage = Some ''  PLANNING  '', msg_details = Some ''again'',
              msg_answer = None, msg_sources = None, msg_content = None\<rparr>,
             \<lparr>msg_type = Some ''status'', msg_stage = Some ''warming up'', msg_details = None,
              msg_answer = None, msg_sources = None, msg_content = None\<rparr>]"
  have r: "reachable ?a" using reachable_initial opened_run by (rule reachable_run)
  have h: "loading_view ?a = Some \<lparr>progress = 8, displayProgress = 8\<rparr>"
    "0 < length (sockets ?a)" "readyState (sockets ?a ! 0) = OPEN"
    "\<forall>m\<in>set ?ms. msg_type m = Some ''status''"
    "map msg_stage ?ms = map Some [''Searching arXiv'', ''  PLANNING  '', ''warming up'']"
    by simp_all
  from displayProgress_never_regresses[OF r h] obtain a' ls' where
    "run (map (\<lambda>m. WsMessage 0 (Some m)) ?ms) ?a = Some a'" "loading_view a' = Some ls'"
    and d: "displayProgress ls' =
         foldl (\<lambda>d l. max d (stageToProgress l)) (displayProgress \<lparr>progress = 8, displayProgress = 8\<rparr>)
           [''Searching arXiv'', ''  PLANNING  '', ''warming up'']"
    by blast
  moreover from d have "displayProgress ls' = 27" "8 \<le> displayProgress ls'"
    by (simp_all add: stageToProgress_examples)
  ultimately have
    "run (map (\<lambda>m. WsMessage 0 (Some m)) ?ms) ?a = Some a'" "loading_view a' = Some ls'"
    "displayProgress ls' = 27" "8 \<le> displayProgress ls'"
    by simp_all
  with opened_run show ?thesis by fastforce
qed

text \<open>
  C2 (amended). \<open>stageToProgress\<close> trims and lowercases the label and takes the first
  entry of the catalog, in catalog order, that occurs in the normalized label as a
  contiguous substring. If that entry has zero-based ordinal \<open>i\<close> the result is
  \<open>round((i + 1) / 11 * 100)\<close>; if no entry occurs the result is \<open>8\<close>. A label whose
  normalized form contains \<open>searching\<close> and neither \<open>checking memory\<close> nor \<open>planning\<close>
  yields \<open>27\<close>; the label \<open>finished\<close> yields \<open>100\<close>. The catalog has eleven entries.
  The counterexample after the witness shows why the entries before \<open>searching\<close> must be
  excluded: a label that contains \<open>planning\<close> and \<open>searching\<close> yields \<open>18\<close>.
\<close>

theorem stageToProgress_first_match:
  "(\<forall>i<length STAGE_ORDER.
       includes_str (toLowerCase (trim label)) (STAGE_ORDER ! i)
       \<and> (\<forall>j<i. \<not> includes_str (toLowerCase (trim label)) (STAGE_ORDER ! j))
       \<longrightarrow> stageToProgress label = Math_round ((of_nat (i + 1) / 11) * 100))
   \<and> ((\<forall>s\<in>set STAGE_ORDER. \<not> includes_str (toLowerCase (trim label)) s)
       \<longrightarrow> stageToProgress label = 8)
   \<and> (includes_str (toLowerCase (trim label)) ''searching''
       \<and> \<not> includes_str (toLowerCase (trim label)) ''checking memory''
       \<and> \<not> includes_str (toLowerCase (trim label)) ''planning''
       \<longrightarrow> stageToProgress label = 27)
   \<and> stageToProgress ''finished'' = 100
   \<and> length STAGE_ORDER = 11
   \<and> (\<forall>t s. includes_str t s \<longleftrightarrow> (\<exists>ps ss. t = ps @ s @ ss))"
proof (intro conjI allI impI)
  fix i assume i: "i < length STAGE_ORDER"
    and m: "includes_str (toLowerCase (trim label)) (STAGE_ORDER ! i)
       \<and> (\<forall>j<i. \<not> includes_str (toLowerCase (trim label)) (STAGE_ORDER ! j))"
  have "stageToProgress label = (200 * (int i + 1) + 11) div 22"
    using i m by (intro stageToProgress_match) simp_all
  also have "\<dots> = Math_round ((of_int (int i + 1) / of_nat 11) * 100)"
    by (rule Math_round_percent[symmetric])
  finally show "stageToProgress label = Math_round ((of_nat (i + 1) / 11) * 100)"
    by (simp add: add.commute)
next
  assume "\<forall>s\<in>set STAGE_ORDER. \<not> includes_str (toLowerCase (trim label)) s"
  then show "stageToProgress label = 8" by (rule stageToProgress_nomatch)
next
  assume a: "includes_str (toLowerCase (trim label)) ''searching''
       \<and> \<not> includes_str (toLowerCase (trim label)) ''checking memory''
       \<and> \<not> includes_str (toLowerCase (trim label)) ''planning''"
  have "\<forall>j<2. \<not> includes_str (toLowerCase (trim label)) (STAGE_ORDER ! j)"
  proof (intro allI impI)
    fix j :: nat assume "j < 2"
    then have "j = 0 \<or> j = Suc 0" by auto
    with a show "\<not> includes_str (toLowerCase (trim label)) (STAGE_ORDER ! j)"
      by (auto simp: STAGE_ORDER_def)
  qed
  with a have "stageToProgress label = (200 * (int 2 + 1) + 11) div 22"
    by (intro stageToProgress_match) (simp_all add: length_STAGE_ORDER nth_STAGE_ORDER)
  then show "stageToProgress label = 27" by simp
next
  show "stageToProgress ''finished'' = 100" by code_simp
next
  show "length STAGE_ORDER = 11" by (rule length_STAGE_ORDER)
next
  fix t s show "includes_str t s \<longleftrightarrow> (\<exists>ps ss. t = ps @ s @ ss)"
    by (simp add: includes_str_sublist sublist_def)
qed

theorem stageToProgress_first_match_witness:
  "stageToProgress ''  Searching arXiv '' = 27
   \<and> stageToProgress ''warming up'' = 8
   \<and> stageToProgress ''Planning the search'' = Math_round ((of_nat (1 + 1) / 11) * 100)"
proof (intro conjI)
  have "includes_str (toLowerCase (trim ''  Searching arXiv '')) ''searching''
       \<and> \<not> includes_str (toLowerCase (trim ''  Searching arXiv '')) ''checking memory''
       \<and> \<not> includes_str (toLowerCase (trim ''  Searching arXiv '')) ''planning''"
    by code_simp
  with stageToProgress_first_match[of "''  Searching arXiv ''"]
  show "stageToProgress ''  Searching arXiv '' = 27" by blast
next
  have "\<forall>s\<in>set STAGE_ORDER. \<not> includes_str (toLowerCase (trim ''warming up'')) s"
    by code_simp
  with stageToProgress_first_match[of "''warming up''"]
  show "stageToProgress ''warming up'' = 8" by blast
next
  have 0: "\<not> includes_str (toLowerCase (trim ''Planning the search'')) (STAGE_ORDER ! 0)"
    and 1: "includes_str (toLowerCase (trim ''Planning the search'')) (STAGE_ORDER ! 1)"
    by code_simp+
  have "\<forall>j<1. \<not> includes_str (toLowerCase (trim ''Planning the search'')) (STAGE_ORDER ! j)"
    using 0 by simp
  moreover have "1 < length STAGE_ORDER" by (simp add: length_STAGE_ORDER)
  ultimately show "stageToProgress ''Planning the search'' = Math_round ((of_nat (1 + 1) / 11) * 100)"
    using 1 stageToProgress_first_match[of "''Planning the search''"] by blast
qed

theorem searching_after_planning_counterexample:
  "includes_str (toLowerCase (trim ''Planning done, searching papers'')) ''searching''
   \<and> stageToProgress ''Planning done, searching papers'' = 18"
  by code_simp









text \<open>
  C6 (amended). In every reachable state at most one socket is live. This is kept by
  the search bar, not by \<open>handleSubmit\<close>: while a socket is live the page is loading,
  the button is disabled and the key handler ignores \<open>Enter\<close>, so a submission changes
  nothing: the live socket stays as it is and no other is opened. \<open>handleSubmit\<close>
  itself keeps every socket the page has and closes none. The counterexample after
  the witness submits on an open session: the socket is still open afterwards; and
  \<open>handleSubmit\<close>, applied to that state directly, leaves it open beside a new one.
\<close>

theorem one_live_channel:
  assumes "reachable a"
  shows "length (filter live (sockets a)) \<le> 1
         \<and> ((\<exists>ws\<in>set (sockets a). live ws) \<longrightarrow>
              isLoading (home a)
              \<and> step (ClickResearch c) a = Some a
              \<and> step (KeyDown key shiftKey c) a = Some a)
         \<and> prefix (sockets a) (sockets (handleSubmit c a))"
proof (intro conjI impI)
  from assms have ok: "sockets_ok a" by (rule reachable_sockets_ok)
  then show "length (filter live (sockets a)) \<le> 1"
    by (intro filter_unique_le_1) (simp add: sockets_ok_def)
  assume "\<exists>ws\<in>set (sockets a). live ws"
  with ok show l: "isLoading (home a)" by (auto intro: sockets_ok_live_loading)
  from l show "step (ClickResearch c) a = Some a"
    by (intro reachable_step_same[OF assms] fire_submit_disabled)
  from l show "step (KeyDown key shiftKey c) a = Some a"
    by (intro reachable_step_same[OF assms] fire_submit_disabled)
next
  show "prefix (sockets a) (sockets (handleSubmit c a))" by (rule prefix_sockets_handleSubmit)
qed

theorem one_live_channel_witness:
  "\<exists>a. run [Change ''q'', ClickResearch Constructed, WsOpen 0] initial = Some a
       \<and> length (filter live (sockets a)) \<le> 1
       \<and> step (ClickResearch Constructed) a = Some a
       \<and> step (KeyDown ''Enter'' False Constructed) a = Some a"
proof -
  let ?a = "\<lparr>home = \<lparr>query = ''q'', isLoading = True, error = None, result = None,
              status = Some ''Starting...'', statusDetails = ''Connecting to research agents...''\<rparr>,
      sockets = [\<lparr>captured_query = ''q'', readyState = OPEN,
                  sent = [\<lparr>req_query = ''q'', use_search = True, mode = ''ultra''\<rparr>]\<rparr>],
      loading_view = Some \<lparr>progress = 8, displayProgress = 8\<rparr>, export_view = None\<rparr>"
  have r: "reachable ?a" using reachable_initial opened_run by (rule reachable_run)
  have l: "\<exists>ws\<in>set (sockets ?a). live ws" by (simp add: live_def)
  from one_live_channel[OF r, of Constructed "''Enter''" False] l
  have "length (filter live (sockets ?a)) \<le> 1"
    and "step (ClickResearch Constructed) ?a = Some ?a"
    and "step (KeyDown ''Enter'' False Constructed) ?a = Some ?a"
    by blast+
  with opened_run show ?thesis by blast
qed

theorem submit_while_open_counterexample:
  "run [Change ''q'', ClickResearch Constructed, WsOpen 0, ClickResearch Constructed] initial
     = run [Change ''q'', ClickResearch Constructed, WsOpen 0] initial
   \<and> map_option (map readyState \<circ> sockets)
        (run [Change ''q'', ClickResearch Constructed, WsOpen 0] initial) = Some [OPEN]
   \<and> map_option (map readyState \<circ> sockets \<circ> handleSubmit Constructed)
        (run [Change ''q'', ClickResearch Constructed, WsOpen 0] initial) = Some [OPEN, CONNECTING]"
  by code_simp

text \<open>
  C7 (amended). The first entry of the catalog is \<open>checking memory\<close>, written with a
  space. For every label whose normalized form contains \<open>checking memory\<close> the first
  matching entry has ordinal \<open>0\<close> and the computed progress is \<open>9\<close>. The counterexample
  after the witness is the hyphenated label \<open>checking-memory\<close>: it matches no entry and
  gets the fallback \<open>8\<close>.
\<close>

theorem checking_memory_first:
  "STAGE_ORDER ! 0 = ''checking memory''
   \<and> (includes_str (toLowerCase (trim label)) ''checking memory''
       \<longrightarrow> findIndex (\<lambda>s. includes_str (toLowerCase (trim label)) s) STAGE_ORDER = 0
           \<and> stageToProgress label = 9)"
proof (intro conjI impI)
  show "STAGE_ORDER ! 0 = ''checking memory''" by (rule nth_STAGE_ORDER)
next
  assume a: "includes_str (toLowerCase (trim label)) ''checking memory''"
  then show "findIndex (\<lambda>s. includes_str (toLowerCase (trim label)) s) STAGE_ORDER = 0"
    by (simp add: STAGE_ORDER_def)
next
  assume a: "includes_str (toLowerCase (trim label)) ''checking memory''"
  then have "stageToProgress label = (200 * (int 0 + 1) + 11) div 22"
    by (intro stageToProgress_match) (simp_all add: length_STAGE_ORDER nth_STAGE_ORDER)
  then show "stageToProgress label = 9" by simp
qed

theorem checking_memory_first_witness:
  "findIndex (\<lambda>s. includes_str (toLowerCase (trim '' Checking Memory...'')) s) STAGE_ORDER = 0
   \<and> stageToProgress '' Checking Memory...'' = 9"
proof -
  have "includes_str (toLowerCase (trim '' Checking Memory...'')) ''checking memory''"
    by code_simp
  with checking_memory_first[of "'' Checking Memory...''"] show ?thesis by blast
qed

theorem checking_memory_hyphen_counterexample:
  "includes_str (toLowerCase (trim ''checking-memory'')) ''checking-memory''
   \<and> stageToProgress ''checking-memory'' = 8
   \<and> STAGE_ORDER ! 0 \<noteq> ''checking-memory''"
  by code_simp

text \<open>
  C8. When the export request fails, whatever the failure, the page keeps its state
  (\<open>isLoading\<close>, \<open>result\<close>, \<open>error\<close>, query and status), its sockets and its loading view:
  the message of the failure is stored in the export button alone, which stops
  generating.
\<close>

theorem export_failure_keeps_session:
  assumes "reachable a" and "export_view a = Some b" and "isGenerating b"
    and "thrown_message out = Some m"
  shows "\<exists>a'. step (ExportSettled out) a = Some a'
           \<and> home a' = home a \<and> sockets a' = sockets a \<and> loading_view a' = loading_view a
           \<and> export_view a' =
               Some \<lparr>isGenerating = False,
                     export_error = Some (if m = [] then ''Failed to generate PDF'' else m)\<rparr>"
proof -
  define b' where "b' = \<lparr>isGenerating = False,
                     export_error = Some (if m = [] then ''Failed to generate PDF'' else m)\<rparr>"
  define c where "c = fire (ExportSettled out) a"
  have s: "handleDownload_settle out b = b'"
    using assms(4) by (simp add: handleDownload_settle_def b'_def)
  have c: "c = a\<lparr>export_view := Some b'\<rparr>"
    using assms(2,3) s by (simp add: c_def)
  have nl: "\<not> isLoading (home a)"
  proof
    assume "isLoading (home a)"
    with assms(1) have "export_view a = None" by (rule reachable_loading_no_export)
    with assms(2) show False by simp
  qed
  from assms(1) have r: "render a = Some a" by (rule reachable_render)
  with render_idle[OF nl]
  have a: "a = a\<lparr>loading_view := None,
                 export_view := next_export_view (result (home a)) (export_view a)\<rparr>" by simp
  have lv: "loading_view a = None"
    using arg_cong[OF a, of loading_view] by simp
  have "export_view a = next_export_view (result (home a)) (export_view a)"
    using arg_cong[OF a, of export_view] by simp
  with assms(2) have res: "result (home a) \<noteq> None"
    by (cases "result (home a)") (simp_all add: next_export_view_def)
  have nlc: "\<not> isLoading (home c)" using nl by (simp add: c)
  have "render c = Some (c\<lparr>loading_view := None,
              export_view := next_export_view (result (home c)) (export_view c)\<rparr>)"
    using nlc by (rule render_idle)
  moreover have "next_export_view (result (home c)) (export_view c) = Some b'"
    using res by (auto simp: c next_export_view_def)
  ultimately have "step (ExportSettled out) a = Some (c\<lparr>loading_view := None, export_view := Some b'\<rparr>)"
    unfolding step_def c_def by simp
  then show ?thesis
    by (simp add: c lv b'_def)
qed


theorem export_failure_keeps_session_witness:
  "\<exists>a a'. run [Change ''q'', ClickResearch Constructed, WsOpen 0,
           WsMessage 0 (Some \<lparr>msg_type = Some ''result'', msg_stage = None, msg_details = None,
              msg_answer = Some ''X'', msg_sources = None, msg_content = None\<rparr>), ClickPDF] initial
         = Some a
     \<and> step (ExportSettled (NotOk (Some ''LaTeX failed'') ''Internal Server Error'')) a = Some a'
     \<and> home a' = home a \<and> sockets a' = sockets a
     \<and> export_view a' = Some \<lparr>isGenerating = False, export_error = Some ''LaTeX failed''\<rparr>"
proof -
  let ?a = "\<lparr>home =
     \<lparr>query = ''q'', isLoading = False, error = None,
        result =
          Some
           \<lparr>resp_query = ''q'', resp_answer = Some ''X'', resp_sources = [],
              resp_search_strategy = Some ''Real-time Agent Research''\<rparr>,
        status = Some ''Starting...'',
        statusDetails = ''Connecting to research agents...''\<rparr>,
     sockets =
       [\<lparr>captured_query = ''q'', readyState = CLOSED,
           sent =
             [\<lparr>req_query = ''q'', use_search = True, mode = ''ultra''\<rparr>]\<rparr>],
     loading_view = None,
     export_view = Some \<lparr>isGenerating = True, export_error = None\<rparr>\<rparr>"
  have o: "run [Change ''q'', ClickResearch Constructed, WsOpen 0,
           WsMessage 0 (Some \<lparr>msg_type = Some ''result'', msg_stage = None, msg_details = None,
              msg_answer = Some ''X'', msg_sources = None, msg_content = None\<rparr>), ClickPDF] initial
         = Some ?a"
    by code_simp
  have r: "reachable ?a" using reachable_initial o by (rule reachable_run)
  have t: "thrown_message (NotOk (Some ''LaTeX failed'') ''Internal Server Error'') = Some ''LaTeX failed''"
    by (simp add: thrown_message_def)
  have "\<exists>a'. step (ExportSettled (NotOk (Some ''LaTeX failed'') ''Internal Server Error'')) ?a = Some a'
           \<and> home a' = home ?a \<and> sockets a' = sockets ?a \<and> loading_view a' = loading_view ?a
           \<and> export_view a' =
               Some \<lparr>isGenerating = False,
                     export_error = Some (if ''LaTeX failed'' = [] then ''Failed to generate PDF'' else ''LaTeX failed'')\<rparr>"
    using export_failure_keeps_session[OF r, of "\<lparr>isGenerating = True, export_error = None\<rparr>"
        "NotOk (Some ''LaTeX failed'') ''Internal Server Error''" "''LaTeX failed''"] t
    by simp
  then obtain a' where
    "step (ExportSettled (NotOk (Some ''LaTeX failed'') ''Internal Server Error'')) ?a = Some a'"
    "home a' = home ?a" "sockets a' = sockets ?a"
    "export_view a' = Some \<lparr>isGenerating = False, export_error = Some ''LaTeX failed''\<rparr>"
    by auto
  with o show ?thesis by blast
qed






end
